theory Spec2Isabelle
  imports Main "HOL-Library.Multiset" "HOL-Library.Sublist"
begin

section \<open>Data model\<close>

text \<open>
  A track as the splitter reads it from a playlist item: \<^verbatim>\<open>track['id']\<close>, the ids of
  \<^verbatim>\<open>track['artists']\<close> (in the order of the list) and \<^verbatim>\<open>track['album']['id']\<close>.
\<close>

record track =
  track_id :: string
  track_artists :: "string list"
  track_album :: string

text \<open>
  The dictionaries built by \<^verbatim>\<open>__split_by_artist\<close> (\<^verbatim>\<open>{'id': ..., 'artists': {...}}\<close>, the
  artists as a set) and by \<^verbatim>\<open>__label_track_slimmer\<close> (\<^verbatim>\<open>{'id': ..., 'label': ...}\<close>).
\<close>

record artist_slim =
  as_id :: string
  as_artists :: "string set"

record label_slim =
  ls_id :: string
  ls_label :: string

section \<open>Classification\<close>

text \<open>
  The scan shared by both classifiers,
  \<^verbatim>\<open>for idx, pool in enumerate(self.__split_pools): if <hit>: ...append...; break\<close>
  with its \<^verbatim>\<open>else\<close> branch: \<open>Some idx\<close> is the index at which the loop breaks, \<open>None\<close>
  says that the loop ran to its end, so that the \<^verbatim>\<open>else\<close> branch is taken.
\<close>

fun scan_pools :: "('p \<Rightarrow> bool) \<Rightarrow> (nat \<times> 'p) list \<Rightarrow> nat option" where
  "scan_pools hit [] = None"
| "scan_pools hit ((idx, pool) # rest) = (if hit pool then Some idx else scan_pools hit rest)"

text \<open>
  The body of the loop over the tracks: \<^verbatim>\<open>track_pools[idx].append(id)\<close> at the break,
  \<^verbatim>\<open>track_pools[-1].append(id)\<close> in the \<^verbatim>\<open>else\<close> branch. \<^verbatim>\<open>track_pools\<close> has
  \<^verbatim>\<open>len(pools) + 1\<close> entries, so neither index is ever out of range.
\<close>

definition place_track ::
  "('p \<Rightarrow> bool) \<Rightarrow> 'p list \<Rightarrow> string \<Rightarrow> string list list \<Rightarrow> string list list" where
  "place_track hit pools ident track_pools =
     (case scan_pools hit (enumerate 0 pools) of
        Some idx \<Rightarrow> track_pools[idx := track_pools ! idx @ [ident]]
      | None \<Rightarrow> track_pools[length track_pools - 1 := last track_pools @ [ident]])"

definition artist_hit :: "artist_slim \<Rightarrow> string list \<Rightarrow> bool" where
  "artist_hit t pool = (as_artists t \<inter> set pool \<noteq> {})"

definition label_hit :: "label_slim \<Rightarrow> string list \<Rightarrow> bool" where
  "label_hit t pool = (ls_label t \<in> set pool)"

fun artist_loop :: "string list list \<Rightarrow> artist_slim list \<Rightarrow> string list list \<Rightarrow> string list list" where
  "artist_loop pools [] track_pools = track_pools"
| "artist_loop pools (t # ts) track_pools =
     artist_loop pools ts (place_track (artist_hit t) pools (as_id t) track_pools)"

definition slim_artist :: "track \<Rightarrow> artist_slim" where
  "slim_artist t = \<lparr>as_id = track_id t, as_artists = set (track_artists t)\<rparr>"

definition split_by_artist :: "string list list \<Rightarrow> track list \<Rightarrow> string list list" where
  "split_by_artist pools tracks =
     artist_loop pools (map slim_artist tracks) (replicate (length pools + 1) [])"

text \<open>The bucket the scan gives a track: the index of the break, else the last one.\<close>

definition bucket_of :: "('p \<Rightarrow> bool) \<Rightarrow> 'p list \<Rightarrow> nat" where
  "bucket_of hit pools =
     (case scan_pools hit (enumerate 0 pools) of Some idx \<Rightarrow> idx | None \<Rightarrow> length pools)"

definition artist_bucket :: "string list list \<Rightarrow> track \<Rightarrow> nat" where
  "artist_bucket pools t = bucket_of (artist_hit (slim_artist t)) pools"

definition slim_label :: "track \<Rightarrow> string \<Rightarrow> label_slim" where
  "slim_label t label = \<lparr>ls_id = track_id t, ls_label = label\<rparr>"

section \<open>The catalog\<close>

text \<open>
  A destination is named by the caller (an id, URI or URL string) or is what
  \<^verbatim>\<open>user_playlist_create\<close> returned; \<open>Created n\<close> is the \<open>n\<close>-th playlist the catalog
  created.
\<close>

datatype playlist_ref = PlaylistId string | Created nat

text \<open>An element of \<^verbatim>\<open>results['tracks']['items']\<close>: a dictionary with the key \<^verbatim>\<open>'track'\<close>.\<close>

datatype item = Item (item_track: track)

text \<open>The paging object \<^verbatim>\<open>results['tracks']\<close>: its \<^verbatim>\<open>'items'\<close> and its \<^verbatim>\<open>'next'\<close> cursor.\<close>

record page =
  page_items :: "item list"
  page_next :: "string option"

text \<open>Every call made on \<^verbatim>\<open>self.client\<close>, in the order made.\<close>

datatype call =
    Call_playlist string
  | Call_next string
  | Call_album string
  | Call_current_user
  | Call_user_playlist_create string string
  | Call_playlist_replace_items playlist_ref "string list"
  | Call_playlist_remove_all_occurrences_of_items playlist_ref "string list"
  | Call_playlist_add_items playlist_ref "string list"

text \<open>
  Modelled from the spec: the catalog client (\<^verbatim>\<open>self.client\<close>, a \<^verbatim>\<open>spotipy.Spotify\<close>) is an
  external library, not part of the sources. Its state is what the operations of the
  spec's section 6 read and write: the first page of every playlist and the page behind
  every cursor, the label of every album, the id of the current user, the items of every
  playlist that is written, the number of playlists created so far, and the calls received.
  Every call succeeds.
\<close>

record catalog =
  playlist_tracks :: "string \<Rightarrow> page"
  page_at :: "string \<Rightarrow> page"
  album_label :: "string \<Rightarrow> string"
  user_id :: string
  contents :: "playlist_ref \<Rightarrow> string list"
  n_created :: nat
  calls :: "call list"

definition log_call :: "call \<Rightarrow> catalog \<Rightarrow> catalog" where
  "log_call x c = c\<lparr>calls := calls c @ [x]\<rparr>"

text \<open>Modelled from the spec: \<^verbatim>\<open>getPlaylist(id)\<close>, the first page of the playlist's items.\<close>

definition client_playlist :: "catalog \<Rightarrow> string \<Rightarrow> page \<times> catalog" where
  "client_playlist c playlist_id = (playlist_tracks c playlist_id, log_call (Call_playlist playlist_id) c)"

text \<open>Modelled from the spec: \<^verbatim>\<open>getNextPage(cursor)\<close>, the page behind a cursor.\<close>

definition client_next :: "catalog \<Rightarrow> string \<Rightarrow> page \<times> catalog" where
  "client_next c url = (page_at c url, log_call (Call_next url) c)"

text \<open>Modelled from the spec: \<^verbatim>\<open>getAlbumLabel(albumId)\<close>.\<close>

definition client_album_label :: "catalog \<Rightarrow> string \<Rightarrow> string \<times> catalog" where
  "client_album_label c album_id = (album_label c album_id, log_call (Call_album album_id) c)"

text \<open>Modelled from the spec: \<^verbatim>\<open>getCurrentUserId()\<close>.\<close>

definition client_current_user :: "catalog \<Rightarrow> string \<times> catalog" where
  "client_current_user c = (user_id c, log_call Call_current_user c)"

text \<open>Modelled from the spec: \<^verbatim>\<open>createPlaylist(ownerId, name)\<close>, a new, empty playlist.\<close>

definition client_user_playlist_create :: "catalog \<Rightarrow> string \<Rightarrow> string \<Rightarrow> playlist_ref \<times> catalog" where
  "client_user_playlist_create c owner name =
     (Created (n_created c),
      log_call (Call_user_playlist_create owner name)
        (c\<lparr>contents := (contents c)(Created (n_created c) := []), n_created := Suc (n_created c)\<rparr>))"

text \<open>Modelled from the spec: \<^verbatim>\<open>replaceItems(playlistId, items)\<close>.\<close>

definition client_playlist_replace_items :: "catalog \<Rightarrow> playlist_ref \<Rightarrow> string list \<Rightarrow> catalog" where
  "client_playlist_replace_items c p its =
     log_call (Call_playlist_replace_items p its) (c\<lparr>contents := (contents c)(p := its)\<rparr>)"

text \<open>Modelled from the spec: \<^verbatim>\<open>removeAllOccurrences(playlistId, items)\<close>.\<close>

definition client_playlist_remove_all_occurrences_of_items ::
  "catalog \<Rightarrow> playlist_ref \<Rightarrow> string list \<Rightarrow> catalog" where
  "client_playlist_remove_all_occurrences_of_items c p its =
     log_call (Call_playlist_remove_all_occurrences_of_items p its)
       (c\<lparr>contents := (contents c)(p := filter (\<lambda>x. x \<notin> set its) (contents c p))\<rparr>)"

text \<open>Modelled from the spec: \<^verbatim>\<open>addItems(playlistId, items)\<close>, appending one chunk.\<close>

definition client_playlist_add_items :: "catalog \<Rightarrow> playlist_ref \<Rightarrow> string list \<Rightarrow> catalog" where
  "client_playlist_add_items c p its =
     log_call (Call_playlist_add_items p its) (c\<lparr>contents := (contents c)(p := contents c p @ its)\<rparr>)"

section \<open>Label classification\<close>

text \<open>
  \<^verbatim>\<open>__split_by_label\<close> draws from the generator \<^verbatim>\<open>__label_track_slimmer\<close>: one album lookup
  per track, made when the loop reaches the track.
\<close>

definition label_track_slimmer :: "catalog \<Rightarrow> track \<Rightarrow> label_slim \<times> catalog" where
  "label_track_slimmer c t =
     (case client_album_label c (track_album t) of (label, c') \<Rightarrow> (slim_label t label, c'))"

fun label_loop ::
  "string list list \<Rightarrow> track list \<Rightarrow> catalog \<Rightarrow> string list list \<Rightarrow> string list list \<times> catalog" where
  "label_loop pools [] c track_pools = (track_pools, c)"
| "label_loop pools (t # ts) c track_pools =
     (case label_track_slimmer c t of
        (s, c') \<Rightarrow> label_loop pools ts c' (place_track (label_hit s) pools (ls_id s) track_pools))"

definition split_by_label :: "string list list \<Rightarrow> track list \<Rightarrow> catalog \<Rightarrow> string list list \<times> catalog" where
  "split_by_label pools tracks c = label_loop pools tracks c (replicate (length pools + 1) [])"

definition label_bucket :: "catalog \<Rightarrow> string list list \<Rightarrow> track \<Rightarrow> nat" where
  "label_bucket c pools t = bucket_of (label_hit (slim_label t (album_label c (track_album t)))) pools"

section \<open>Paging\<close>

text \<open>Python's truth value of the cursor: \<^verbatim>\<open>None\<close> and the empty string are false.\<close>

definition truthy :: "string option \<Rightarrow> bool" where
  "truthy cursor = (case cursor of None \<Rightarrow> False | Some url \<Rightarrow> url \<noteq> [])"

text \<open>
  The \<^verbatim>\<open>while results['tracks']['next']\<close> loop of \<^verbatim>\<open>__get_all_playlist_items\<close>. Nothing bounds
  the number of pages a catalog hands out, so the loop need not return: \<open>None\<close> is a run
  that never ends.
\<close>

partial_function (option) paging_loop :: "catalog \<Rightarrow> page \<Rightarrow> item list \<Rightarrow> (item list \<times> catalog) option" where
  "paging_loop c results playlist_tracks_acc =
     (case page_next results of
        None \<Rightarrow> Some (playlist_tracks_acc, c)
      | Some url \<Rightarrow>
          if url = [] then Some (playlist_tracks_acc, c)
          else paging_loop (snd (client_next c url)) (fst (client_next c url))
                 (playlist_tracks_acc @ page_items (fst (client_next c url))))"

definition get_all_playlist_items :: "catalog \<Rightarrow> string \<Rightarrow> (item list \<times> catalog) option" where
  "get_all_playlist_items c playlist_id =
     (case client_playlist c playlist_id of
        (results, c') \<Rightarrow> paging_loop c' results ([] @ page_items results))"

text \<open>The pages that follow a page: each behind the cursor of the one before, the last
  with a cursor that is false.\<close>

fun page_chain :: "(string \<Rightarrow> page) \<Rightarrow> page \<Rightarrow> page list \<Rightarrow> bool" where
  "page_chain at p [] = (\<not> truthy (page_next p))"
| "page_chain at p (q # qs) =
     (case page_next p of
        None \<Rightarrow> False
      | Some url \<Rightarrow> url \<noteq> [] \<and> at url = q \<and> page_chain at q qs)"

text \<open>The cursors followed from a page through the pages after it.\<close>

fun cursors :: "page \<Rightarrow> page list \<Rightarrow> string list" where
  "cursors p [] = []"
| "cursors p (q # qs) = (case page_next p of None \<Rightarrow> [] | Some url \<Rightarrow> url # cursors q qs)"

section \<open>Writing\<close>

text \<open>\<^verbatim>\<open>for i in range(0, len(tracks), 50): yield tracks[i: i + 50]\<close>, from index \<open>i\<close> on.\<close>

function chunks_from :: "nat \<Rightarrow> string list \<Rightarrow> string list list" where
  "chunks_from i tracks =
     (if i < length tracks then take 50 (drop i tracks) # chunks_from (i + 50) tracks else [])"
  by pat_completeness auto
termination
  by (relation "measure (\<lambda>(i, tracks). length tracks - i)") auto

declare chunks_from.simps [simp del]

definition chunk_track_list :: "string list \<Rightarrow> string list list" where
  "chunk_track_list tracks = chunks_from 0 tracks"

definition placeholder :: string where
  "placeholder = ''spotify:track:4RWkW7tGWseUu1T9LzpEBP''"

definition reset_playlist :: "catalog \<Rightarrow> playlist_ref \<Rightarrow> catalog" where
  "reset_playlist c playlist_id =
     client_playlist_remove_all_occurrences_of_items
       (client_playlist_replace_items c playlist_id [placeholder]) playlist_id [placeholder]"

fun add_chunks :: "catalog \<Rightarrow> playlist_ref \<Rightarrow> string list list \<Rightarrow> catalog" where
  "add_chunks c playlist [] = c"
| "add_chunks c playlist (chunk # chunked_list) =
     add_chunks (client_playlist_add_items c playlist chunk) playlist chunked_list"

definition write_playlist :: "catalog \<Rightarrow> playlist_ref \<Rightarrow> string list \<Rightarrow> catalog" where
  "write_playlist c playlist track_list =
     add_chunks (reset_playlist c playlist) playlist (chunk_track_list track_list)"

section \<open>The splitter\<close>

datatype SplitTypes = ARTIST | LABEL

text \<open>
  What \<^verbatim>\<open>__split_type\<close> can hold at run time: a string, or a member of \<^verbatim>\<open>SplitTypes\<close>, the
  declared type of the parameter of \<^verbatim>\<open>by\<close>.
\<close>

datatype split_type_value = Str string | Member SplitTypes

text \<open>
  What \<^verbatim>\<open>__target_playlists\<close> can hold: the list given to \<^verbatim>\<open>into\<close>, or the generator that
  \<^verbatim>\<open>split\<close> stores, with the number of \<^verbatim>\<open>__make_target_playlist()\<close> calls it has left.
\<close>

datatype targets = Target_list "playlist_ref list" | Target_generator nat

record splitter =
  origin_playlist :: "string option"
  target_playlists :: "targets option"
  split_type :: "split_type_value option"
  split_pools :: "string list list option"

datatype error = ValueError string | AttributeError string | TypeError

definition settings_unset :: string where
  "settings_unset = ''Playlist and split settings must be set to perform split''"

definition target_count :: string where
  "target_count = ''List of target playlists must be same length as split pools (or unset)''"

definition zip_shorter :: string where
  "zip_shorter = ''zip() argument 2 is shorter than argument 1''"

definition zip_longer :: string where
  "zip_longer = ''zip() argument 2 is longer than argument 1''"

text \<open>\<^verbatim>\<open>by\<close>, under the name of its alias \<^verbatim>\<open>split_by\<close>.\<close>

definition split_by :: "splitter \<Rightarrow> split_type_value \<Rightarrow> string list list \<Rightarrow> splitter" where
  "split_by self by_type split_lists = self\<lparr>split_type := Some by_type, split_pools := Some split_lists\<rparr>"

definition playlist :: "splitter \<Rightarrow> string \<Rightarrow> splitter" where
  "playlist self playlist_id = self\<lparr>origin_playlist := Some playlist_id\<rparr>"

definition into :: "splitter \<Rightarrow> playlist_ref list \<Rightarrow> splitter" where
  "into self playlist_ids = self\<lparr>target_playlists := Some (Target_list playlist_ids)\<rparr>"

definition make_target_playlist :: "catalog \<Rightarrow> playlist_ref \<times> catalog" where
  "make_target_playlist c =
     (case client_current_user c of (uid, c') \<Rightarrow> client_user_playlist_create c' uid ''test1'')"

text \<open>\<^verbatim>\<open>next()\<close> on the iterator over the targets; \<open>None\<close> is \<^verbatim>\<open>StopIteration\<close>.\<close>

fun next_target :: "targets \<Rightarrow> catalog \<Rightarrow> (playlist_ref \<times> targets \<times> catalog) option" where
  "next_target (Target_list []) c = None"
| "next_target (Target_list (p # ps)) c = Some (p, Target_list ps, c)"
| "next_target (Target_generator 0) c = None"
| "next_target (Target_generator (Suc n)) c =
     (case make_target_playlist c of (p, c') \<Rightarrow> Some (p, Target_generator n, c'))"

text \<open>
  \<^verbatim>\<open>for tracks, playlist in zip(track_pools, self.__target_playlists, strict=True)\<close>: at every
  step \<^verbatim>\<open>zip\<close> draws from the pools, then from the targets, and raises \<^verbatim>\<open>ValueError\<close> when
  only one of them has ended.
\<close>

fun write_pools :: "string list list \<Rightarrow> targets \<Rightarrow> catalog \<Rightarrow> (error + unit) \<times> catalog" where
  "write_pools [] tgs c =
     (case next_target tgs c of
        None \<Rightarrow> (Inr (), c)
      | Some (target, tgs', c') \<Rightarrow> (Inl (ValueError zip_longer), c'))"
| "write_pools (tracks # track_pools) tgs c =
     (case next_target tgs c of
        None \<Rightarrow> (Inl (ValueError zip_shorter), c)
      | Some (target, tgs', c') \<Rightarrow>
          write_pools track_pools tgs' (write_playlist (reset_playlist c' target) target tracks))"

datatype classifier = Split_by_artist | Split_by_label

text \<open>
  \<^verbatim>\<open>getattr(self, '_PlaylistSplitter__split_by_' + self.__split_type)\<close>: a string and a
  member of an \<^verbatim>\<open>Enum\<close> do not concatenate (\<^verbatim>\<open>TypeError\<close>), and the two classifiers are the
  only attributes whose names start with the prefix (\<^verbatim>\<open>AttributeError\<close> otherwise).
\<close>

definition dispatch :: "split_type_value \<Rightarrow> error + classifier" where
  "dispatch st =
     (case st of
        Member m \<Rightarrow> Inl TypeError
      | Str s \<Rightarrow>
          if s = ''artist'' then Inr Split_by_artist
          else if s = ''label'' then Inr Split_by_label
          else Inl (AttributeError (''_PlaylistSplitter__split_by_'' @ s)))"

definition classify ::
  "classifier \<Rightarrow> string list list \<Rightarrow> track list \<Rightarrow> catalog \<Rightarrow> string list list \<times> catalog" where
  "classify cl pools tracks c =
     (case cl of
        Split_by_artist \<Rightarrow> (split_by_artist pools tracks, c)
      | Split_by_label \<Rightarrow> split_by_label pools tracks c)"

definition do_split ::
  "string \<Rightarrow> split_type_value \<Rightarrow> string list list \<Rightarrow> targets \<Rightarrow> catalog \<Rightarrow>
     ((error + unit) \<times> catalog) option" where
  "do_split origin st pools tgs c =
     (case get_all_playlist_items c origin of
        None \<Rightarrow> None
      | Some (results, c1) \<Rightarrow>
          Some (case dispatch st of
                  Inl e \<Rightarrow> (Inl e, c1)
                | Inr cl \<Rightarrow>
                    (case classify cl pools (map item_track results) c1 of
                       (track_pools, c2) \<Rightarrow> write_pools track_pools tgs c2)))"

text \<open>
  The two checks of \<^verbatim>\<open>split\<close> on the merged settings. \<^verbatim>\<open>len\<close> of a generator left by an
  earlier \<^verbatim>\<open>split\<close> raises \<^verbatim>\<open>TypeError\<close>.
\<close>

definition validate :: "splitter \<Rightarrow> error + (string \<times> split_type_value \<times> string list list)" where
  "validate self =
     (case (origin_playlist self, split_type self, split_pools self) of
        (Some origin, Some st, Some pools) \<Rightarrow>
          (case target_playlists self of
             None \<Rightarrow> Inr (origin, st, pools)
           | Some (Target_generator n) \<Rightarrow> Inl TypeError
           | Some (Target_list ps) \<Rightarrow>
               if length pools \<noteq> length ps \<and> length pools + 1 \<noteq> length ps
               then Inl (ValueError target_count)
               else Inr (origin, st, pools))
      | _ \<Rightarrow> Inl (ValueError settings_unset))"

text \<open>\<^verbatim>\<open>if not self.__target_playlists\<close>: \<^verbatim>\<open>None\<close> and the empty list are false.\<close>

definition effective_targets :: "targets option \<Rightarrow> string list list \<Rightarrow> targets" where
  "effective_targets tp pools =
     (case tp of
        None \<Rightarrow> Target_generator (length pools)
      | Some (Target_list []) \<Rightarrow> Target_generator (length pools)
      | Some tgs \<Rightarrow> tgs)"

definition merge_args ::
  "splitter \<Rightarrow> (split_type_value \<times> string list list) option \<Rightarrow> string option \<Rightarrow>
     playlist_ref list option \<Rightarrow> splitter" where
  "merge_args self by_arg playlist_arg into_arg =
     (let self1 = (case by_arg of None \<Rightarrow> self | Some (by_type, split_lists) \<Rightarrow> split_by self by_type split_lists);
          self2 = (case playlist_arg of None \<Rightarrow> self1 | Some playlist_id \<Rightarrow> playlist self1 playlist_id);
          self3 = (case into_arg of None \<Rightarrow> self2 | Some playlist_ids \<Rightarrow> into self2 playlist_ids)
      in self3)"

definition split ::
  "splitter \<Rightarrow> (split_type_value \<times> string list list) option \<Rightarrow> string option \<Rightarrow>
     playlist_ref list option \<Rightarrow> catalog \<Rightarrow> ((error + unit) \<times> catalog) option" where
  "split self by_arg playlist_arg into_arg c =
     (let self' = merge_args self by_arg playlist_arg into_arg in
        case validate self' of
          Inl e \<Rightarrow> Some (Inl e, c)
        | Inr (origin, st, pools) \<Rightarrow>
            do_split origin st pools (effective_targets (target_playlists self') pools) c)"


section \<open>Example inputs\<close>

definition track1 :: track where
  "track1 = \<lparr>track_id = ''track1'', track_artists = [''A'', ''B''], track_album = ''album1''\<rparr>"

definition track2 :: track where
  "track2 = \<lparr>track_id = ''track2'', track_artists = [''C''], track_album = ''album2''\<rparr>"

definition track3 :: track where
  "track3 = \<lparr>track_id = ''track3'', track_artists = [''D''], track_album = ''album3''\<rparr>"

definition example_pools :: "string list list" where
  "example_pools = [[''A''], [''C'']]"

definition example_catalog :: catalog where
  "example_catalog =
     \<lparr>playlist_tracks = (\<lambda>p. \<lparr>page_items = [Item track1, Item track2, Item track3], page_next = None\<rparr>),
      page_at = (\<lambda>u. \<lparr>page_items = [], page_next = None\<rparr>),
      album_label = (\<lambda>a. if a = ''album1'' then ''Sony'' else if a = ''album2'' then ''sony'' else ''Indie''),
      user_id = ''me'',
      contents = (\<lambda>p. [''old'']),
      n_created = 0,
      calls = []\<rparr>"



definition paged_catalog :: catalog where
  "paged_catalog =
     \<lparr>playlist_tracks = (\<lambda>p. \<lparr>page_items = [Item track1], page_next = Some ''page2''\<rparr>),
      page_at = (\<lambda>u. if u = ''page2'' then \<lparr>page_items = [Item track2, Item track3], page_next = Some ''page3''\<rparr>
                     else \<lparr>page_items = [], page_next = None\<rparr>),
      album_label = (\<lambda>a. ''Indie''),
      user_id = ''me'',
      contents = (\<lambda>p. []),
      n_created = 0,
      calls = []\<rparr>"

definition unset_targets_splitter :: splitter where
  "unset_targets_splitter =
     \<lparr>origin_playlist = Some ''origin'', target_playlists = None,
      split_type = Some (Str ''artist''), split_pools = Some example_pools\<rparr>"

definition same_length_splitter :: splitter where
  "same_length_splitter =
     \<lparr>origin_playlist = Some ''origin'',
      target_playlists = Some (Target_list [PlaylistId ''first'', PlaylistId ''second'']),
      split_type = Some (Str ''artist''), split_pools = Some example_pools\<rparr>"


definition unset_splitter :: splitter where
  "unset_splitter =
     \<lparr>origin_playlist = None, target_playlists = None, split_type = None, split_pools = None\<rparr>"

definition one_more_splitter :: splitter where
  "one_more_splitter =
     \<lparr>origin_playlist = Some ''origin'',
      target_playlists = Some (Target_list [PlaylistId ''first'', PlaylistId ''second'', PlaylistId ''rest'']),
      split_type = Some (Str ''artist''), split_pools = Some example_pools\<rparr>"

definition same_id_a :: track where
  "same_id_a = \<lparr>track_id = ''x'', track_artists = [''A''], track_album = ''album1''\<rparr>"

definition same_id_c :: track where
  "same_id_c = \<lparr>track_id = ''x'', track_artists = [''C''], track_album = ''album2''\<rparr>"

section \<open>Properties of the scan\<close>

lemma scan_pools_Some:
  "scan_pools hit (enumerate n pools) = Some i \<Longrightarrow>
     n \<le> i \<and> i < n + length pools \<and> hit (pools ! (i - n)) \<and>
     (\<forall>j. n \<le> j \<and> j < i \<longrightarrow> \<not> hit (pools ! (j - n)))"
proof (induction pools arbitrary: n)
  case Nil
  then show ?case by simp
next
  case (Cons p ps)
  show ?case
  proof (cases "hit p")
    case True
    with Cons.prems show ?thesis by simp
  next
    case False
    with Cons.prems have rest: "scan_pools hit (enumerate (Suc n) ps) = Some i" by simp
    from Cons.IH [OF rest]
    have a: "Suc n \<le> i" and b: "i < Suc n + length ps" and c: "hit (ps ! (i - Suc n))"
      and d: "\<forall>j. Suc n \<le> j \<and> j < i \<longrightarrow> \<not> hit (ps ! (j - Suc n))"
      by blast+
    from a have e: "i - n = Suc (i - Suc n)" by arith
    have "\<not> hit ((p # ps) ! (j - n))" if "n \<le> j" "j < i" for j
    proof (cases "j = n")
      case True
      with False show ?thesis by simp
    next
      case False
      with that have "Suc n \<le> j" by arith
      moreover from this have "j - n = Suc (j - Suc n)" by arith
      ultimately show ?thesis using d that by simp
    qed
    with a b c e show ?thesis by simp
  qed
qed

lemma scan_pools_None:
  "(scan_pools hit (enumerate n pools) = None) = (\<forall>p \<in> set pools. \<not> hit p)"
  by (induction pools arbitrary: n) auto

lemma bucket_of_le: "bucket_of hit pools \<le> length pools"
  by (auto simp: bucket_of_def split: option.splits dest: scan_pools_Some)

lemma bucket_of_hit:
  "bucket_of hit pools < length pools \<Longrightarrow> hit (pools ! bucket_of hit pools)"
  by (auto simp: bucket_of_def split: option.splits dest: scan_pools_Some)

lemma bucket_of_first:
  "j < bucket_of hit pools \<Longrightarrow> \<not> hit (pools ! j)"
proof (cases "scan_pools hit (enumerate 0 pools)")
  case None
  assume "j < bucket_of hit pools"
  with None have "j < length pools" by (simp add: bucket_of_def)
  moreover from None have "\<forall>p \<in> set pools. \<not> hit p" by (simp add: scan_pools_None)
  ultimately show ?thesis by simp
next
  case (Some i)
  assume "j < bucket_of hit pools"
  with Some have "j < i" by (simp add: bucket_of_def)
  with scan_pools_Some [OF Some] show ?thesis by simp
qed

lemma bucket_of_overflow:
  "(bucket_of hit pools = length pools) = (\<forall>p \<in> set pools. \<not> hit p)"
proof (cases "scan_pools hit (enumerate 0 pools)")
  case None
  then have "\<forall>p \<in> set pools. \<not> hit p" by (simp add: scan_pools_None)
  with None show ?thesis by (simp add: bucket_of_def)
next
  case (Some i)
  from scan_pools_Some [OF Some] have "i < length pools" by simp
  with Some have "bucket_of hit pools \<noteq> length pools" by (simp add: bucket_of_def)
  moreover from Some have "\<not> (\<forall>p \<in> set pools. \<not> hit p)"
    unfolding scan_pools_None [of hit 0 pools, symmetric] by simp
  ultimately show ?thesis by blast
qed

lemma place_track_bucket:
  assumes "length track_pools = length pools + 1"
  shows "place_track hit pools ident track_pools =
           track_pools[bucket_of hit pools := track_pools ! bucket_of hit pools @ [ident]]"
proof (cases "scan_pools hit (enumerate 0 pools)")
  case None
  from assms have "track_pools \<noteq> []" by auto
  then have "last track_pools = track_pools ! (length track_pools - 1)" by (rule last_conv_nth)
  with None assms show ?thesis by (simp add: place_track_def bucket_of_def)
next
  case (Some i)
  then show ?thesis by (simp add: place_track_def bucket_of_def)
qed

section \<open>Classification by artist\<close>

lemma place_step:
  assumes "length tp = n + 1" and "k \<le> n"
  shows "map (\<lambda>i. (tp[k := tp ! k @ [x]]) ! i @ F i) [0..<n + 1] =
         map (\<lambda>i. tp ! i @ (if i = k then x # F i else F i)) [0..<n + 1]"
  using assms by (intro map_cong) (auto simp: nth_list_update)

lemma length_place_track [simp]:
  "length (place_track hit pools ident tp) = length tp"
  by (simp add: place_track_def split: option.splits)

lemma artist_loop_buckets:
  "length tp = length pools + 1 \<Longrightarrow>
   artist_loop pools ts tp =
     map (\<lambda>i. tp ! i @ map as_id (filter (\<lambda>t. bucket_of (artist_hit t) pools = i) ts))
       [0..<length pools + 1]"
proof (induction ts arbitrary: tp)
  case Nil
  then show ?case by (simp add: map_nth [symmetric] del: map_nth upt_Suc) (metis map_nth)
next
  case (Cons t ts)
  let ?k = "bucket_of (artist_hit t) pools"
  let ?tp = "tp[?k := tp ! ?k @ [as_id t]]"
  have pl: "place_track (artist_hit t) pools (as_id t) tp = ?tp"
    using Cons.prems by (rule place_track_bucket)
  have len: "length ?tp = length pools + 1" using Cons.prems by simp
  have "artist_loop pools (t # ts) tp = artist_loop pools ts ?tp" by (simp add: pl)
  also have "\<dots> = map (\<lambda>i. ?tp ! i @ map as_id (filter (\<lambda>t. bucket_of (artist_hit t) pools = i) ts))
       [0..<length pools + 1]" by (rule Cons.IH [OF len])
  also have "\<dots> = map (\<lambda>i. tp ! i @ (if i = ?k then as_id t # map as_id (filter (\<lambda>t. bucket_of (artist_hit t) pools = i) ts)
          else map as_id (filter (\<lambda>t. bucket_of (artist_hit t) pools = i) ts))) [0..<length pools + 1]"
    by (rule place_step [OF Cons.prems bucket_of_le])
  also have "\<dots> = map (\<lambda>i. tp ! i @ map as_id (filter (\<lambda>t. bucket_of (artist_hit t) pools = i) (t # ts)))
       [0..<length pools + 1]"
    by (intro map_cong) auto
  finally show ?case .
qed

lemma split_by_artist_buckets:
  "split_by_artist pools tracks =
     map (\<lambda>i. map track_id (filter (\<lambda>t. artist_bucket pools t = i) tracks)) [0..<length pools + 1]"
proof -
  have "split_by_artist pools tracks =
     map (\<lambda>i. replicate (length pools + 1) [] ! i @
          map as_id (filter (\<lambda>t. bucket_of (artist_hit t) pools = i) (map slim_artist tracks)))
       [0..<length pools + 1]"
    unfolding split_by_artist_def by (rule artist_loop_buckets) simp
  also have "\<dots> = map (\<lambda>i. map track_id (filter (\<lambda>t. artist_bucket pools t = i) tracks)) [0..<length pools + 1]"
  proof (intro map_cong refl)
    fix i assume "i \<in> set [0..<length pools + 1]"
    then have "i < length pools + 1" by auto
    then have "replicate (length pools + 1) ([]::string list) ! i = []" by (rule nth_replicate)
    then show "replicate (length pools + 1) [] ! i @
          map as_id (filter (\<lambda>t. bucket_of (artist_hit t) pools = i) (map slim_artist tracks)) =
          map track_id (filter (\<lambda>t. artist_bucket pools t = i) tracks)"
      by (simp add: filter_map o_def artist_bucket_def slim_artist_def)
  qed
  finally show ?thesis .
qed

lemma mset_concat_buckets:
  "\<forall>t \<in> set ts. g t < n \<Longrightarrow>
   mset (concat (map (\<lambda>i. map f (filter (\<lambda>t. g t = i) ts)) [0..<n])) = mset (map f ts)"
proof (induction ts)
  case Nil
  then show ?case by (simp add: mset_concat o_def)
next
  case (Cons t ts)
  then have gt: "g t < n" and rest: "\<forall>t \<in> set ts. g t < n" by simp_all
  have one: "sum_list (map (\<lambda>i. if i = g t then {#f t#} else {#}) [0..<n]) = {#f t#}"
  proof -
    have "sum_list (map (\<lambda>i. if i = g t then {#f t#} else {#}) [0..<n]) =
          (\<Sum>i \<in> {0..<n}. if i = g t then {#f t#} else {#})"
      by (simp add: interv_sum_list_conv_sum_set_nat)
    also have "\<dots> = {#f t#}" using gt by (simp add: sum.delta)
    finally show ?thesis .
  qed
  have "mset (concat (map (\<lambda>i. map f (filter (\<lambda>t. g t = i) (t # ts))) [0..<n])) =
        sum_list (map (\<lambda>i. (if i = g t then {#f t#} else {#}) + mset (map f (filter (\<lambda>t. g t = i) ts))) [0..<n])"
    by (simp add: mset_concat o_def) (rule arg_cong [where f = sum_list], rule map_cong, auto)
  also have "\<dots> = sum_list (map (\<lambda>i. if i = g t then {#f t#} else {#}) [0..<n]) +
        sum_list (map (\<lambda>i. mset (map f (filter (\<lambda>t. g t = i) ts))) [0..<n])"
    by (rule sum_list_addf)
  also have "\<dots> = {#f t#} + mset (concat (map (\<lambda>i. map f (filter (\<lambda>t. g t = i) ts)) [0..<n]))"
    by (simp add: one mset_concat o_def)
  also have "\<dots> = mset (map f (t # ts))" using Cons.IH [OF rest] by simp
  finally show ?case .
qed

lemma artist_bucket_le: "artist_bucket pools t \<le> length pools"
  by (simp add: artist_bucket_def bucket_of_le)

lemma artist_hit_slim: "artist_hit (slim_artist t) pool = (set (track_artists t) \<inter> set pool \<noteq> {})"
  by (simp add: artist_hit_def slim_artist_def)

lemma artist_bucket_cong:
  "set (track_artists t) = set (track_artists u) \<Longrightarrow> artist_bucket pools t = artist_bucket pools u"
proof -
  assume "set (track_artists t) = set (track_artists u)"
  then have "artist_hit (slim_artist t) = artist_hit (slim_artist u)"
    by (simp add: fun_eq_iff artist_hit_slim)
  then show ?thesis by (simp add: artist_bucket_def)
qed

lemma nth_buckets:
  "i \<le> n \<Longrightarrow> map (\<lambda>i. map f (filter (\<lambda>t. g t = i) ts)) [0..<n + 1] ! i = map f (filter (\<lambda>t. g t = i) ts)"
  by (simp del: upt_Suc add: nth_map_upt)

text \<open>
  C1, as the claim states it, fails for a track list in which one id comes with two
  different sets of artists: each occurrence is classified by its own artists, so with the
  pools \<open>[[A], [C]]\<close> the id \<open>x\<close>, once with the artist A and once with the artist C, is in
  bucket 0 and in bucket 1.
\<close>

theorem split_by_artist_same_id_two_buckets:
  "track_id same_id_a = track_id same_id_c \<and>
   split_by_artist example_pools [same_id_a, same_id_c] = [[''x''], [''x''], []] \<and>
   track_id same_id_a \<in> set (split_by_artist example_pools [same_id_a, same_id_c] ! 0) \<and>
   track_id same_id_a \<in> set (split_by_artist example_pools [same_id_a, same_id_c] ! 1)"
proof -
  have s: "split_by_artist example_pools [same_id_a, same_id_c] = [[''x''], [''x''], []]"
    by (simp add: split_by_artist_def example_pools_def same_id_a_def same_id_c_def slim_artist_def
        place_track_def artist_hit_def enumerate_eq_zip)
  have i: "track_id same_id_a = ''x''" "track_id same_id_c = ''x''"
    by (simp_all add: same_id_a_def same_id_c_def)
  show ?thesis by (simp add: s i)
qed

text \<open>
  C1, amended. Classification by artist is a stable partition of the occurrences of the
  tracks. The result has one bucket per pool and one more; bucket \<open>i\<close> is the list of the
  ids of the tracks that the scan sends to \<open>i\<close>, in their order in the input, so every
  bucket is a subsequence of the input ids; the buckets together hold every occurrence of
  an input id exactly once; and when tracks of the list with the same id have the same
  artists, as in a playlist read from the catalog, an input id is in bucket \<open>i\<close> exactly
  when \<open>i\<close> is the bucket of its track, that is in exactly one bucket.
\<close>

theorem split_by_artist_stable_partition:
  "length (split_by_artist pools tracks) = length pools + 1 \<and>
   split_by_artist pools tracks =
     map (\<lambda>i. map track_id (filter (\<lambda>t. artist_bucket pools t = i) tracks)) [0..<length pools + 1] \<and>
   mset (concat (split_by_artist pools tracks)) = mset (map track_id tracks) \<and>
   (\<forall>b \<in> set (split_by_artist pools tracks). subseq b (map track_id tracks)) \<and>
   ((\<forall>t \<in> set tracks. \<forall>u \<in> set tracks.
        track_id t = track_id u \<longrightarrow> set (track_artists t) = set (track_artists u)) \<longrightarrow>
    (\<forall>t \<in> set tracks. \<forall>i \<le> length pools.
        (track_id t \<in> set (split_by_artist pools tracks ! i)) = (i = artist_bucket pools t)))"
proof (intro conjI impI ballI allI)
  show "length (split_by_artist pools tracks) = length pools + 1"
    by (simp add: split_by_artist_buckets)
  show "split_by_artist pools tracks =
     map (\<lambda>i. map track_id (filter (\<lambda>t. artist_bucket pools t = i) tracks)) [0..<length pools + 1]"
    by (rule split_by_artist_buckets)
  have "\<forall>t \<in> set tracks. artist_bucket pools t < length pools + 1"
    using artist_bucket_le [of pools] by (simp add: less_Suc_eq_le)
  then show "mset (concat (split_by_artist pools tracks)) = mset (map track_id tracks)"
    unfolding split_by_artist_buckets by (rule mset_concat_buckets)
next
  fix b assume "b \<in> set (split_by_artist pools tracks)"
  then obtain i where "b = map track_id (filter (\<lambda>t. artist_bucket pools t = i) tracks)"
    unfolding split_by_artist_buckets by auto
  then show "subseq b (map track_id tracks)" by (simp add: subseq_map)
next
  fix t i
  assume same: "\<forall>t \<in> set tracks. \<forall>u \<in> set tracks.
        track_id t = track_id u \<longrightarrow> set (track_artists t) = set (track_artists u)"
    and t: "t \<in> set tracks" and i: "i \<le> length pools"
  have nth: "split_by_artist pools tracks ! i = map track_id (filter (\<lambda>t. artist_bucket pools t = i) tracks)"
    unfolding split_by_artist_buckets using i by (rule nth_buckets)
  show "(track_id t \<in> set (split_by_artist pools tracks ! i)) = (i = artist_bucket pools t)"
  proof
    assume "track_id t \<in> set (split_by_artist pools tracks ! i)"
    then obtain u where u: "u \<in> set tracks" "artist_bucket pools u = i" "track_id u = track_id t"
      unfolding nth by auto
    with same t have "set (track_artists u) = set (track_artists t)" by blast
    then have "artist_bucket pools u = artist_bucket pools t" by (rule artist_bucket_cong)
    with u show "i = artist_bucket pools t" by simp
  next
    assume "i = artist_bucket pools t"
    with t show "track_id t \<in> set (split_by_artist pools tracks ! i)"
      unfolding nth by auto
  qed
qed

lemma example_split_by_artist:
  "split_by_artist example_pools [track1, track2, track3] = [[''track1''], [''track2''], [''track3'']]"
  by (simp add: split_by_artist_def example_pools_def track1_def track2_def track3_def slim_artist_def
      place_track_def artist_hit_def enumerate_eq_zip)

theorem split_by_artist_stable_partition_witness:
  "split_by_artist example_pools [track1, track2, track1] = [[''track1'', ''track1''], [''track2''], []] \<and>
   mset (concat (split_by_artist example_pools [track1, track2, track1])) =
     {#''track1'', ''track2'', ''track1''#} \<and>
   track_id track1 \<in> set (split_by_artist example_pools [track1, track2, track1] ! 0) \<and>
   track_id track1 \<notin> set (split_by_artist example_pools [track1, track2, track1] ! 1) \<and>
   track_id track1 \<notin> set (split_by_artist example_pools [track1, track2, track1] ! 2)"
proof -
  let ?ts = "[track1, track2, track1]"
  note inst = split_by_artist_stable_partition [of example_pools ?ts]
  have same: "\<forall>t \<in> set ?ts. \<forall>u \<in> set ?ts.
        track_id t = track_id u \<longrightarrow> set (track_artists t) = set (track_artists u)"
    by (simp add: track1_def track2_def)
  have l: "length example_pools = 2" by (simp add: example_pools_def)
  have b1: "artist_bucket example_pools track1 = 0"
    by (simp add: artist_bucket_def bucket_of_def artist_hit_slim example_pools_def track1_def
        enumerate_eq_zip)
  have b2: "artist_bucket example_pools track2 = 1"
    by (simp add: artist_bucket_def bucket_of_def artist_hit_slim example_pools_def track2_def
        enumerate_eq_zip)
  have ids: "track_id track1 = ''track1''" "track_id track2 = ''track2''"
    by (simp_all add: track1_def track2_def)
  have u: "[0..<3] = [0, 1, 2]" by (simp add: upt_rec)
  from inst same have "\<forall>t \<in> set ?ts. \<forall>i \<le> length example_pools.
        (track_id t \<in> set (split_by_artist example_pools ?ts ! i)) = (i = artist_bucket example_pools t)"
    by blast
  then have "\<forall>i \<le> length example_pools.
        (track_id track1 \<in> set (split_by_artist example_pools ?ts ! i)) = (i = artist_bucket example_pools track1)"
    by simp
  then have "\<forall>i \<le> 2. (track_id track1 \<in> set (split_by_artist example_pools ?ts ! i)) = (i = 0)"
    unfolding b1 l .
  then have "track_id track1 \<in> set (split_by_artist example_pools ?ts ! 0)"
    and "track_id track1 \<notin> set (split_by_artist example_pools ?ts ! 1)"
    and "track_id track1 \<notin> set (split_by_artist example_pools ?ts ! 2)"
    by simp_all
  moreover from inst have "split_by_artist example_pools ?ts =
     map (\<lambda>i. map track_id (filter (\<lambda>t. artist_bucket example_pools t = i) ?ts)) [0..<3]"
    by (simp add: l)
  then have "split_by_artist example_pools ?ts = [[''track1'', ''track1''], [''track2''], []]"
    by (simp add: u b1 b2 ids)
  moreover from inst have "mset (concat (split_by_artist example_pools ?ts)) = mset (map track_id ?ts)"
    by blast
  then have "mset (concat (split_by_artist example_pools ?ts)) = {#''track1'', ''track2'', ''track1''#}"
    by (simp add: ids)
  ultimately show ?thesis by blast
qed

lemma length_artist_loop: "length (artist_loop pools ts tp) = length tp"
  by (induction ts arbitrary: tp) simp_all

lemma artist_loop_snoc:
  "artist_loop pools (ts @ [t]) tp = place_track (artist_hit t) pools (as_id t) (artist_loop pools ts tp)"
  by (induction ts arbitrary: tp) simp_all

text \<open>
  C2. Classification by artist is first match. The result always has one bucket per pool
  and one more, and the bucket of a track is the index of one of them. Whatever tracks
  came before it, a track is appended to that bucket and no other one is touched; no pool
  before it shares an artist with the track; if it is the index of a pool, that pool
  shares an artist with the track; and it is the overflow index, the number of pools,
  exactly when no pool shares an artist with the track.
\<close>

theorem split_by_artist_first_match:
  "length (split_by_artist pools tracks) = length pools + 1 \<and>
   length (split_by_artist pools (tracks @ [t])) = length pools + 1 \<and>
   artist_bucket pools t < length (split_by_artist pools tracks) \<and>
   split_by_artist pools (tracks @ [t]) =
     (split_by_artist pools tracks)
       [artist_bucket pools t := split_by_artist pools tracks ! artist_bucket pools t @ [track_id t]] \<and>
   split_by_artist pools (tracks @ [t]) ! artist_bucket pools t =
     split_by_artist pools tracks ! artist_bucket pools t @ [track_id t] \<and>
   (\<forall>j \<le> length pools. j \<noteq> artist_bucket pools t \<longrightarrow>
      split_by_artist pools (tracks @ [t]) ! j = split_by_artist pools tracks ! j) \<and>
   artist_bucket pools t \<le> length pools \<and>
   (\<forall>j < artist_bucket pools t. set (track_artists t) \<inter> set (pools ! j) = {}) \<and>
   (artist_bucket pools t < length pools \<longrightarrow>
      set (track_artists t) \<inter> set (pools ! artist_bucket pools t) \<noteq> {}) \<and>
   ((artist_bucket pools t = length pools) =
      (\<forall>p \<in> set pools. set (track_artists t) \<inter> set p = {}))"
proof (intro conjI allI impI)
  let ?tp = "artist_loop pools (map slim_artist tracks) (replicate (length pools + 1) [])"
  have len: "length ?tp = length pools + 1" by (simp add: length_artist_loop)
  have "split_by_artist pools (tracks @ [t]) =
          place_track (artist_hit (slim_artist t)) pools (as_id (slim_artist t)) ?tp"
    by (simp add: split_by_artist_def artist_loop_snoc)
  also have "\<dots> = ?tp[artist_bucket pools t := ?tp ! artist_bucket pools t @ [as_id (slim_artist t)]]"
    unfolding artist_bucket_def using len by (rule place_track_bucket)
  finally have upd: "split_by_artist pools (tracks @ [t]) =
     (split_by_artist pools tracks)
       [artist_bucket pools t := split_by_artist pools tracks ! artist_bucket pools t @ [track_id t]]"
    by (simp add: split_by_artist_def slim_artist_def)
  have n: "length (split_by_artist pools tracks) = length pools + 1"
    by (simp add: split_by_artist_buckets)
  have k: "artist_bucket pools t < length (split_by_artist pools tracks)"
    using artist_bucket_le [of pools t] by (simp add: n)
  show "length (split_by_artist pools tracks) = length pools + 1" by (rule n)
  show "length (split_by_artist pools (tracks @ [t])) = length pools + 1"
    by (simp add: split_by_artist_buckets)
  show "artist_bucket pools t < length (split_by_artist pools tracks)" by (rule k)
  show "split_by_artist pools (tracks @ [t]) =
     (split_by_artist pools tracks)
       [artist_bucket pools t := split_by_artist pools tracks ! artist_bucket pools t @ [track_id t]]"
    by (rule upd)
  show "split_by_artist pools (tracks @ [t]) ! artist_bucket pools t =
     split_by_artist pools tracks ! artist_bucket pools t @ [track_id t]"
    by (subst upd) (simp only: nth_list_update_eq [OF k])
  show "split_by_artist pools (tracks @ [t]) ! j = split_by_artist pools tracks ! j"
    if "j \<le> length pools" "j \<noteq> artist_bucket pools t" for j
    using that by (subst upd) simp
  show "artist_bucket pools t \<le> length pools" by (rule artist_bucket_le)
  show "set (track_artists t) \<inter> set (pools ! j) = {}" if "j < artist_bucket pools t" for j
    using bucket_of_first [of j "artist_hit (slim_artist t)" pools] that
    by (simp add: artist_bucket_def artist_hit_slim)
  show "set (track_artists t) \<inter> set (pools ! artist_bucket pools t) \<noteq> {}"
    if "artist_bucket pools t < length pools"
    using bucket_of_hit [of "artist_hit (slim_artist t)" pools] that
    by (simp add: artist_bucket_def artist_hit_slim)
  show "(artist_bucket pools t = length pools) =
      (\<forall>p \<in> set pools. set (track_artists t) \<inter> set p = {})"
    using bucket_of_overflow [of "artist_hit (slim_artist t)" pools]
    by (simp add: artist_bucket_def artist_hit_slim)
qed

theorem split_by_artist_first_match_witness:
  "artist_bucket [[''A''], [''B'']] track1 = 0 \<and>
   split_by_artist [[''A''], [''B'']] ([track3] @ [track1]) = [[''track1''], [], [''track3'']] \<and>
   set (track_artists track1) \<inter> set ([[''A''], [''B'']] ! 1) \<noteq> {} \<and>
   artist_bucket [[''A''], [''B'']] track3 = 2 \<and>
   length (split_by_artist [[''A''], [''B'']] ([track3] @ [track1])) = 3 \<and>
   artist_bucket [[''A''], [''B'']] track1 < length (split_by_artist [[''A''], [''B'']] [track3])"
proof -
  have b: "artist_bucket [[''A''], [''B'']] track1 = 0"
    by (simp add: artist_bucket_def bucket_of_def artist_hit_slim track1_def enumerate_eq_zip)
  have s: "split_by_artist [[''A''], [''B'']] [track3] = [[], [], [''track3'']]"
    by (simp add: split_by_artist_def track3_def slim_artist_def place_track_def artist_hit_def
        enumerate_eq_zip)
  have i: "track_id track1 = ''track1''" by (simp add: track1_def)
  have none: "\<forall>p \<in> set [[''A''], [''B'']]. set (track_artists track3) \<inter> set p = {}"
    by (simp add: track3_def)
  from split_by_artist_first_match [of "[[''A''], [''B'']]" "[track3]" track1]
  have "split_by_artist [[''A''], [''B'']] ([track3] @ [track1]) = [[''track1''], [], [''track3'']]"
    by (simp add: b s i)
  moreover from split_by_artist_first_match [of "[[''A''], [''B'']]" "[]" track3] none
  have "artist_bucket [[''A''], [''B'']] track3 = 2" by simp
  moreover have "set (track_artists track1) \<inter> set ([[''A''], [''B'']] ! 1) \<noteq> {}"
    by (simp add: track1_def)
  moreover from split_by_artist_first_match [of "[[''A''], [''B'']]" "[track3]" track1]
  have "length (split_by_artist [[''A''], [''B'']] ([track3] @ [track1])) = 3"
    and "artist_bucket [[''A''], [''B'']] track1 < length (split_by_artist [[''A''], [''B'']] [track3])"
    by simp_all
  ultimately show ?thesis using b by blast
qed

section \<open>Classification by label\<close>

lemma album_label_log_call [simp]: "album_label (log_call x c) = album_label c"
  by (simp add: log_call_def)

lemma label_bucket_log_call [simp]: "label_bucket (log_call x c) pools t = label_bucket c pools t"
  by (simp add: label_bucket_def)

lemma label_track_slimmer_eq:
  "label_track_slimmer c t =
     (slim_label t (album_label c (track_album t)), log_call (Call_album (track_album t)) c)"
  by (simp add: label_track_slimmer_def client_album_label_def)

lemma log_call_calls:
  "(log_call x c)\<lparr>calls := calls (log_call x c) @ xs\<rparr> = c\<lparr>calls := calls c @ x # xs\<rparr>"
  by (simp add: log_call_def)

lemma label_loop_buckets:
  "length tp = length pools + 1 \<Longrightarrow>
   label_loop pools ts c tp =
     (map (\<lambda>i. tp ! i @ map track_id (filter (\<lambda>t. label_bucket c pools t = i) ts))
        [0..<length pools + 1],
      c\<lparr>calls := calls c @ map (\<lambda>t. Call_album (track_album t)) ts\<rparr>)"
proof (induction ts arbitrary: tp c)
  case Nil
  then show ?case by (simp add: map_nth [symmetric] del: map_nth upt_Suc) (metis map_nth)
next
  case (Cons t ts)
  let ?s = "slim_label t (album_label c (track_album t))"
  let ?c = "log_call (Call_album (track_album t)) c"
  let ?k = "label_bucket c pools t"
  let ?tp = "tp[?k := tp ! ?k @ [track_id t]]"
  let ?F = "\<lambda>i. map track_id (filter (\<lambda>t. label_bucket c pools t = i) ts)"
  have pl: "place_track (label_hit ?s) pools (ls_id ?s) tp = ?tp"
    using place_track_bucket [OF Cons.prems, of "label_hit ?s" "ls_id ?s"]
    by (simp add: label_bucket_def slim_label_def)
  have len: "length ?tp = length pools + 1" using Cons.prems by simp
  have k: "?k \<le> length pools" by (simp add: label_bucket_def bucket_of_le)
  have "label_loop pools (t # ts) c tp = label_loop pools ts ?c ?tp"
    by (simp add: label_track_slimmer_eq pl)
  also have "\<dots> = (map (\<lambda>i. ?tp ! i @ ?F i) [0..<length pools + 1],
      c\<lparr>calls := calls c @ map (\<lambda>t. Call_album (track_album t)) (t # ts)\<rparr>)"
    by (simp only: Cons.IH [OF len] label_bucket_log_call log_call_calls list.map)
  also have "map (\<lambda>i. ?tp ! i @ ?F i) [0..<length pools + 1] =
      map (\<lambda>i. tp ! i @ (if i = ?k then track_id t # ?F i else ?F i)) [0..<length pools + 1]"
    by (rule place_step [OF Cons.prems k])
  also have "\<dots> = map (\<lambda>i. tp ! i @ map track_id (filter (\<lambda>t. label_bucket c pools t = i) (t # ts)))
       [0..<length pools + 1]"
    by (intro map_cong) auto
  finally show ?case .
qed

lemma split_by_label_buckets:
  "split_by_label pools tracks c =
     (map (\<lambda>i. map track_id (filter (\<lambda>t. label_bucket c pools t = i) tracks)) [0..<length pools + 1],
      c\<lparr>calls := calls c @ map (\<lambda>t. Call_album (track_album t)) tracks\<rparr>)"
proof -
  have "map (\<lambda>i. replicate (length pools + 1) ([]::string list) ! i @
              map track_id (filter (\<lambda>t. label_bucket c pools t = i) tracks)) [0..<length pools + 1] =
        map (\<lambda>i. map track_id (filter (\<lambda>t. label_bucket c pools t = i) tracks)) [0..<length pools + 1]"
  proof (intro map_cong refl)
    fix i assume "i \<in> set [0..<length pools + 1]"
    then have "i < length pools + 1" by auto
    then have "replicate (length pools + 1) ([]::string list) ! i = []" by (rule nth_replicate)
    then show "replicate (length pools + 1) [] ! i @
              map track_id (filter (\<lambda>t. label_bucket c pools t = i) tracks) =
              map track_id (filter (\<lambda>t. label_bucket c pools t = i) tracks)" by simp
  qed
  moreover have "length (replicate (length pools + 1) ([]::string list)) = length pools + 1" by simp
  ultimately show ?thesis
    unfolding split_by_label_def by (simp only: label_loop_buckets)
qed




section \<open>Chunks, clearing and writing\<close>

lemma concat_chunks_from: "concat (chunks_from i tracks) = drop i tracks"
proof (induction i tracks rule: chunks_from.induct)
  case (1 i tracks)
  show ?case
  proof (cases "i < length tracks")
    case True
    have "concat (chunks_from i tracks) = take 50 (drop i tracks) @ drop (i + 50) tracks"
      using True "1.IH" by (subst chunks_from.simps) simp
    also have "drop (i + 50) tracks = drop 50 (drop i tracks)" by (simp only: drop_drop add.commute)
    also have "take 50 (drop i tracks) @ drop 50 (drop i tracks) = drop i tracks"
      by (rule append_take_drop_id)
    finally show ?thesis .
  next
    case False
    then show ?thesis by (subst chunks_from.simps) simp
  qed
qed

lemma chunk_count_step:
  assumes "i < (n::nat)"
  shows "Suc ((n - (i + 50) + 49) div 50) = (n - i + 49) div 50"
proof (cases "i + 50 \<le> n")
  case True
  then have "n - i + 49 = (n - (i + 50) + 49) + 50" by simp
  then show ?thesis by (simp only: div_add_self2)
next
  case False
  then have z: "n - (i + 50) = 0" by simp
  from False assms have "50 * 1 \<le> n - i + 49" and "n - i + 49 < 50 * Suc 1" by simp_all
  then have "(n - i + 49) div 50 = 1" by (rule div_nat_eqI)
  with z show ?thesis by simp
qed

lemma length_chunks_from: "length (chunks_from i tracks) = (length tracks - i + 49) div 50"
proof (induction i tracks rule: chunks_from.induct)
  case (1 i tracks)
  show ?case
  proof (cases "i < length tracks")
    case True
    have "length (chunks_from i tracks) = Suc (length (chunks_from (i + 50) tracks))"
      using True by (subst chunks_from.simps) simp
    also have "\<dots> = Suc ((length tracks - (i + 50) + 49) div 50)"
      using True "1.IH" by (simp only:)
    also have "\<dots> = (length tracks - i + 49) div 50" using True by (rule chunk_count_step)
    finally show ?thesis .
  next
    case False
    then have "length (chunks_from i tracks) = 0" by (subst chunks_from.simps) simp
    moreover from False have "length tracks - i = 0" by simp
    ultimately show ?thesis by simp
  qed
qed

lemma chunks_from_bound:
  "chunk \<in> set (chunks_from i tracks) \<Longrightarrow> length chunk \<le> 50 \<and> chunk \<noteq> []"
proof (induction i tracks rule: chunks_from.induct)
  case (1 i tracks)
  show ?case
  proof (cases "i < length tracks")
    case True
    with "1.prems" have "chunk = take 50 (drop i tracks) \<or> chunk \<in> set (chunks_from (i + 50) tracks)"
      by (subst (asm) chunks_from.simps) simp
    then show ?thesis
    proof
      assume "chunk = take 50 (drop i tracks)"
      with True show ?thesis by simp
    next
      assume "chunk \<in> set (chunks_from (i + 50) tracks)"
      with True "1.IH" show ?thesis by simp
    qed
  next
    case False
    with "1.prems" show ?thesis by (subst (asm) chunks_from.simps) simp
  qed
qed

lemma calls_log_call [simp]: "calls (log_call x c) = calls c @ [x]"
  by (simp add: log_call_def)

lemma contents_log_call [simp]: "contents (log_call x c) = contents c"
  by (simp add: log_call_def)

lemma n_created_log_call [simp]: "n_created (log_call x c) = n_created c"
  by (simp add: log_call_def)

lemma user_id_log_call [simp]: "user_id (log_call x c) = user_id c"
  by (simp add: log_call_def)

lemma page_at_log_call [simp]: "page_at (log_call x c) = page_at c"
  by (simp add: log_call_def)

lemma playlist_tracks_log_call [simp]: "playlist_tracks (log_call x c) = playlist_tracks c"
  by (simp add: log_call_def)

lemma calls_reset_playlist:
  "calls (reset_playlist c p) =
     calls c @ [Call_playlist_replace_items p [placeholder],
                Call_playlist_remove_all_occurrences_of_items p [placeholder]]"
  by (simp add: reset_playlist_def client_playlist_replace_items_def
      client_playlist_remove_all_occurrences_of_items_def)

lemma contents_reset_playlist: "contents (reset_playlist c p) = (contents c)(p := [])"
  by (simp add: reset_playlist_def client_playlist_replace_items_def
      client_playlist_remove_all_occurrences_of_items_def)

lemma n_created_reset_playlist [simp]: "n_created (reset_playlist c p) = n_created c"
  by (simp add: reset_playlist_def client_playlist_replace_items_def
      client_playlist_remove_all_occurrences_of_items_def)

lemma user_id_reset_playlist [simp]: "user_id (reset_playlist c p) = user_id c"
  by (simp add: reset_playlist_def client_playlist_replace_items_def
      client_playlist_remove_all_occurrences_of_items_def)

lemma calls_add_chunks:
  "calls (add_chunks c p chunked_list) = calls c @ map (Call_playlist_add_items p) chunked_list"
  by (induction chunked_list arbitrary: c) (simp_all add: client_playlist_add_items_def)

lemma contents_add_chunks:
  "contents (add_chunks c p chunked_list) = (contents c)(p := contents c p @ concat chunked_list)"
  by (induction chunked_list arbitrary: c) (simp_all add: client_playlist_add_items_def)

lemma n_created_add_chunks [simp]: "n_created (add_chunks c p chunked_list) = n_created c"
  by (induction chunked_list arbitrary: c) (simp_all add: client_playlist_add_items_def)

lemma user_id_add_chunks [simp]: "user_id (add_chunks c p chunked_list) = user_id c"
  by (induction chunked_list arbitrary: c) (simp_all add: client_playlist_add_items_def)

lemma concat_chunk_track_list: "concat (chunk_track_list tracks) = tracks"
  by (simp add: chunk_track_list_def concat_chunks_from)

lemma calls_write_playlist:
  "calls (write_playlist c p track_list) =
     calls c @ [Call_playlist_replace_items p [placeholder],
                Call_playlist_remove_all_occurrences_of_items p [placeholder]] @
     map (Call_playlist_add_items p) (chunk_track_list track_list)"
  by (simp add: write_playlist_def calls_add_chunks calls_reset_playlist)

lemma contents_write_playlist: "contents (write_playlist c p track_list) = (contents c)(p := track_list)"
  by (simp add: write_playlist_def contents_add_chunks contents_reset_playlist concat_chunk_track_list)

lemma n_created_write_playlist [simp]: "n_created (write_playlist c p track_list) = n_created c"
  by (simp add: write_playlist_def)

lemma user_id_write_playlist [simp]: "user_id (write_playlist c p track_list) = user_id c"
  by (simp add: write_playlist_def)

text \<open>
  C6. The chunked write. After the two calls that clear the destination, \<^verbatim>\<open>write_playlist\<close>
  makes one \<^verbatim>\<open>playlist_add_items\<close> call per chunk, in the order of the chunks, and nothing
  else. For a list of \<open>N\<close> ids there are \<open>(N + 49) div 50\<close> chunks, the ceiling of \<open>N / 50\<close>,
  each of at most 50 ids, and their concatenation is the list; the empty list has no chunk.
\<close>

theorem write_playlist_chunked:
  "calls (write_playlist c p track_list) =
     calls c @ [Call_playlist_replace_items p [placeholder],
                Call_playlist_remove_all_occurrences_of_items p [placeholder]] @
     map (Call_playlist_add_items p) (chunk_track_list track_list) \<and>
   length (chunk_track_list track_list) = (length track_list + 49) div 50 \<and>
   (\<forall>chunk \<in> set (chunk_track_list track_list). length chunk \<le> 50) \<and>
   concat (chunk_track_list track_list) = track_list \<and>
   chunk_track_list [] = []"
proof (intro conjI ballI)
  show "calls (write_playlist c p track_list) =
     calls c @ [Call_playlist_replace_items p [placeholder],
                Call_playlist_remove_all_occurrences_of_items p [placeholder]] @
     map (Call_playlist_add_items p) (chunk_track_list track_list)"
    by (rule calls_write_playlist)
  show "length (chunk_track_list track_list) = (length track_list + 49) div 50"
    by (simp add: chunk_track_list_def length_chunks_from)
  show "concat (chunk_track_list track_list) = track_list" by (rule concat_chunk_track_list)
  show "chunk_track_list [] = []" by (simp add: chunk_track_list_def chunks_from.simps)
next
  fix chunk assume "chunk \<in> set (chunk_track_list track_list)"
  then show "length chunk \<le> 50" by (simp add: chunk_track_list_def chunks_from_bound)
qed

theorem write_playlist_chunked_witness:
  "length (chunk_track_list (replicate 120 ''id'')) = 3 \<and>
   length (hd (chunk_track_list (replicate 120 ''id''))) \<le> 50 \<and>
   concat (chunk_track_list (replicate 120 ''id'')) = replicate 120 ''id'' \<and>
   length (calls (write_playlist example_catalog (PlaylistId ''d'') (replicate 120 ''id''))) = 5"
proof -
  note inst = write_playlist_chunked [of example_catalog "PlaylistId ''d''" "replicate 120 ''id''"]
  from inst have n: "length (chunk_track_list (replicate 120 ''id'')) = 3" by simp
  then have "chunk_track_list (replicate 120 ''id'') \<noteq> []" by auto
  then have "hd (chunk_track_list (replicate 120 ''id'')) \<in> set (chunk_track_list (replicate 120 ''id''))"
    by (rule hd_in_set)
  with inst have "length (hd (chunk_track_list (replicate 120 ''id''))) \<le> 50" by blast
  moreover from inst have "concat (chunk_track_list (replicate 120 ''id'')) = replicate 120 ''id''"
    by blast
  moreover have "calls example_catalog = []" by (simp add: example_catalog_def)
  with inst n have "length (calls (write_playlist example_catalog (PlaylistId ''d'') (replicate 120 ''id''))) = 5"
    by simp
  ultimately show ?thesis using n by blast
qed

text \<open>
  C8. \<^verbatim>\<open>reset_playlist\<close> makes two calls, replace-all with the placeholder and then
  remove-all-occurrences of the placeholder, and leaves the destination empty; whatever
  the destination held before, \<^verbatim>\<open>reset_playlist\<close> followed by \<^verbatim>\<open>write_playlist\<close> leaves it
  holding the written ids, in their order, and nothing else.
\<close>

theorem reset_then_write:
  "calls (reset_playlist c p) =
     calls c @ [Call_playlist_replace_items p [placeholder],
                Call_playlist_remove_all_occurrences_of_items p [placeholder]] \<and>
   contents (reset_playlist c p) p = [] \<and>
   contents (write_playlist (reset_playlist c p) p track_list) p = track_list"
  by (simp add: calls_reset_playlist contents_reset_playlist contents_write_playlist)

section \<open>Fetching the pages of a playlist\<close>

lemma paging_loop_chain:
  "page_chain (page_at c) p qs \<Longrightarrow>
   paging_loop c p acc =
     Some (acc @ concat (map page_items qs), c\<lparr>calls := calls c @ map Call_next (cursors p qs)\<rparr>)"
proof (induction qs arbitrary: c p acc)
  case Nil
  then have "\<not> truthy (page_next p)" by simp
  then show ?case
    by (subst paging_loop.simps) (simp add: truthy_def split: option.splits)
next
  case (Cons q qs)
  from Cons.prems obtain url where url: "page_next p = Some url" "url \<noteq> []" "page_at c url = q"
    and rest: "page_chain (page_at c) q qs"
    by (auto split: option.splits)
  let ?c = "log_call (Call_next url) c"
  have nx: "client_next c url = (q, ?c)" by (simp add: client_next_def url)
  from rest have rest': "page_chain (page_at ?c) q qs" by simp
  have "paging_loop c p acc = paging_loop ?c q (acc @ page_items q)"
    by (subst paging_loop.simps) (simp add: url nx)
  also have "\<dots> = Some ((acc @ page_items q) @ concat (map page_items qs),
      ?c\<lparr>calls := calls ?c @ map Call_next (cursors q qs)\<rparr>)"
    by (rule Cons.IH [OF rest'])
  also have "?c\<lparr>calls := calls ?c @ map Call_next (cursors q qs)\<rparr> =
      c\<lparr>calls := calls c @ map Call_next (cursors p (q # qs))\<rparr>"
    by (simp add: url log_call_def)
  finally show ?case by simp
qed

lemma length_cursors: "page_chain at p qs \<Longrightarrow> length (cursors p qs) = length qs"
  by (induction qs arbitrary: p) (auto split: option.splits)

lemma get_all_playlist_items_chain:
  assumes "page_chain (page_at c) (playlist_tracks c playlist_id) qs"
  shows "get_all_playlist_items c playlist_id =
     Some (concat (map page_items (playlist_tracks c playlist_id # qs)),
           c\<lparr>calls := calls c @ Call_playlist playlist_id #
                  map Call_next (cursors (playlist_tracks c playlist_id) qs)\<rparr>)"
proof -
  let ?c = "log_call (Call_playlist playlist_id) c"
  from assms have "page_chain (page_at ?c) (playlist_tracks c playlist_id) qs" by simp
  from paging_loop_chain [OF this, of "page_items (playlist_tracks c playlist_id)"]
  show ?thesis
    by (simp add: get_all_playlist_items_def client_playlist_def log_call_def)
qed

text \<open>
  C9. Fetching all items of a playlist. When the pages the catalog hands out after the
  first one are the finite sequence \<open>qs\<close> (each behind the cursor of the page before, the
  cursor of the last one false), \<^verbatim>\<open>__get_all_playlist_items\<close> returns, and returns the items
  of the first page followed by the items of the pages of \<open>qs\<close> in order. It asks for the
  playlist once and then for one page per cursor followed: as many page requests as \<open>qs\<close>
  has pages, none after the false cursor. When the cursor of the first page is already
  false, the only call is the one for the playlist and the items are those of that page.
\<close>

theorem get_all_playlist_items_pages:
  "(page_chain (page_at c) (playlist_tracks c playlist_id) qs \<longrightarrow>
      get_all_playlist_items c playlist_id =
        Some (concat (map page_items (playlist_tracks c playlist_id # qs)),
              c\<lparr>calls := calls c @ Call_playlist playlist_id #
                     map Call_next (cursors (playlist_tracks c playlist_id) qs)\<rparr>) \<and>
      length (cursors (playlist_tracks c playlist_id) qs) = length qs) \<and>
   (\<not> truthy (page_next (playlist_tracks c playlist_id)) \<longrightarrow>
      get_all_playlist_items c playlist_id =
        Some (page_items (playlist_tracks c playlist_id),
              c\<lparr>calls := calls c @ [Call_playlist playlist_id]\<rparr>))"
proof (intro conjI impI)
  assume ch: "page_chain (page_at c) (playlist_tracks c playlist_id) qs"
  then show "get_all_playlist_items c playlist_id =
        Some (concat (map page_items (playlist_tracks c playlist_id # qs)),
              c\<lparr>calls := calls c @ Call_playlist playlist_id #
                     map Call_next (cursors (playlist_tracks c playlist_id) qs)\<rparr>)"
    by (rule get_all_playlist_items_chain)
  from ch show "length (cursors (playlist_tracks c playlist_id) qs) = length qs"
    by (rule length_cursors)
next
  assume "\<not> truthy (page_next (playlist_tracks c playlist_id))"
  then have "page_chain (page_at c) (playlist_tracks c playlist_id) []" by simp
  from get_all_playlist_items_chain [OF this]
  show "get_all_playlist_items c playlist_id =
        Some (page_items (playlist_tracks c playlist_id),
              c\<lparr>calls := calls c @ [Call_playlist playlist_id]\<rparr>)"
    by simp
qed

theorem get_all_playlist_items_pages_witness:
  "map_option fst (get_all_playlist_items paged_catalog ''origin'') =
     Some [Item track1, Item track2, Item track3] \<and>
   map_option (calls \<circ> snd) (get_all_playlist_items paged_catalog ''origin'') =
     Some [Call_playlist ''origin'', Call_next ''page2'', Call_next ''page3''] \<and>
   map_option fst (get_all_playlist_items example_catalog ''origin'') =
     Some [Item track1, Item track2, Item track3] \<and>
   map_option (calls \<circ> snd) (get_all_playlist_items example_catalog ''origin'') =
     Some [Call_playlist ''origin'']"
proof -
  let ?qs = "[\<lparr>page_items = [Item track2, Item track3], page_next = Some ''page3''\<rparr>,
              \<lparr>page_items = [], page_next = None\<rparr>]"
  have ch: "page_chain (page_at paged_catalog) (playlist_tracks paged_catalog ''origin'') ?qs"
    by (simp add: paged_catalog_def truthy_def)
  have fin: "\<not> truthy (page_next (playlist_tracks example_catalog ''origin''))"
    by (simp add: example_catalog_def truthy_def)
  from get_all_playlist_items_pages [of paged_catalog "''origin''" ?qs] ch
  have "get_all_playlist_items paged_catalog ''origin'' =
        Some (concat (map page_items (playlist_tracks paged_catalog ''origin'' # ?qs)),
              paged_catalog\<lparr>calls := calls paged_catalog @ Call_playlist ''origin'' #
                     map Call_next (cursors (playlist_tracks paged_catalog ''origin'') ?qs)\<rparr>)"
    by blast
  then have a: "map_option fst (get_all_playlist_items paged_catalog ''origin'') =
     Some [Item track1, Item track2, Item track3]"
    and b: "map_option (calls \<circ> snd) (get_all_playlist_items paged_catalog ''origin'') =
     Some [Call_playlist ''origin'', Call_next ''page2'', Call_next ''page3'']"
    by (simp_all add: paged_catalog_def)
  from get_all_playlist_items_pages [of example_catalog "''origin''" "[]"] fin
  have "get_all_playlist_items example_catalog ''origin'' =
        Some (page_items (playlist_tracks example_catalog ''origin''),
              example_catalog\<lparr>calls := calls example_catalog @ [Call_playlist ''origin'']\<rparr>)"
    by blast
  then have "map_option fst (get_all_playlist_items example_catalog ''origin'') =
     Some [Item track1, Item track2, Item track3]"
    and "map_option (calls \<circ> snd) (get_all_playlist_items example_catalog ''origin'') =
     Some [Call_playlist ''origin'']"
    by (simp_all add: example_catalog_def)
  with a b show ?thesis by blast
qed

section \<open>Runs of the splitter\<close>

lemma example_get_all:
  "get_all_playlist_items example_catalog ''origin'' =
     Some ([Item track1, Item track2, Item track3],
           example_catalog\<lparr>calls := [Call_playlist ''origin'']\<rparr>)"
proof -
  have "page_chain (page_at example_catalog) (playlist_tracks example_catalog ''origin'') []"
    by (simp add: example_catalog_def truthy_def)
  from get_all_playlist_items_chain [OF this] show ?thesis
    by (simp add: example_catalog_def)
qed

lemma chunk_track_list_singleton: "chunk_track_list [x] = [[x]]"
  by (simp add: chunk_track_list_def chunks_from.simps)

lemma write_one:
  "write_playlist (reset_playlist c p) p [x] =
     c\<lparr>contents := (contents c)(p := [x]),
       calls := calls c @ [Call_playlist_replace_items p [placeholder],
                Call_playlist_remove_all_occurrences_of_items p [placeholder],
                Call_playlist_replace_items p [placeholder],
                Call_playlist_remove_all_occurrences_of_items p [placeholder],
                Call_playlist_add_items p [x]]\<rparr>"
  by (simp add: write_playlist_def reset_playlist_def chunk_track_list_singleton
      client_playlist_replace_items_def client_playlist_remove_all_occurrences_of_items_def
      client_playlist_add_items_def log_call_def)

lemma example_catalog_fields:
  "user_id example_catalog = ''me''" "n_created example_catalog = 0" "calls example_catalog = []"
  "contents example_catalog = (\<lambda>p. [''old''])"
  by (simp_all add: example_catalog_def)

lemma example_do_split:
  "do_split ''origin'' (Str ''artist'') pools tgs example_catalog =
     Some (write_pools (split_by_artist pools [track1, track2, track3]) tgs
             (example_catalog\<lparr>calls := [Call_playlist ''origin'']\<rparr>))"
  by (simp add: do_split_def example_get_all dispatch_def classify_def)

lemma example_split_unset:
  "split unset_targets_splitter None None None example_catalog =
     Some (write_pools [[''track1''], [''track2''], [''track3'']] (Target_generator (Suc (Suc 0)))
             (example_catalog\<lparr>calls := [Call_playlist ''origin'']\<rparr>))"
proof -
  have l: "length example_pools = Suc (Suc 0)" by (simp add: example_pools_def)
  have "split unset_targets_splitter None None None example_catalog =
      do_split ''origin'' (Str ''artist'') example_pools (Target_generator (length example_pools))
        example_catalog"
    by (simp add: split_def merge_args_def validate_def effective_targets_def unset_targets_splitter_def)
  then show ?thesis by (simp only: example_do_split example_split_by_artist l)
qed

text \<open>
  C4. The example of the spec, run with the targets unset: three tracks with the artists
  A and B, C, and D, and the pools \<open>[[A], [C]]\<close>. \<^verbatim>\<open>split\<close> creates two playlists, one per
  pool and none for the overflow bucket, writes \<open>track1\<close> to the first and \<open>track2\<close> to
  the second, and then \<^verbatim>\<open>zip\<close> raises \<^verbatim>\<open>ValueError\<close>: the overflow bucket with \<open>track3\<close> is
  written nowhere.
\<close>

theorem split_unset_targets_creates_one_too_few:
  "map_option fst (split unset_targets_splitter None None None example_catalog) =
     Some (Inl (ValueError zip_shorter)) \<and>
   map_option (n_created \<circ> snd) (split unset_targets_splitter None None None example_catalog) = Some 2 \<and>
   map_option (calls \<circ> snd) (split unset_targets_splitter None None None example_catalog) =
     Some [Call_playlist ''origin'',
           Call_current_user, Call_user_playlist_create ''me'' ''test1'',
           Call_playlist_replace_items (Created 0) [placeholder],
           Call_playlist_remove_all_occurrences_of_items (Created 0) [placeholder],
           Call_playlist_replace_items (Created 0) [placeholder],
           Call_playlist_remove_all_occurrences_of_items (Created 0) [placeholder],
           Call_playlist_add_items (Created 0) [''track1''],
           Call_current_user, Call_user_playlist_create ''me'' ''test1'',
           Call_playlist_replace_items (Created 1) [placeholder],
           Call_playlist_remove_all_occurrences_of_items (Created 1) [placeholder],
           Call_playlist_replace_items (Created 1) [placeholder],
           Call_playlist_remove_all_occurrences_of_items (Created 1) [placeholder],
           Call_playlist_add_items (Created 1) [''track2'']] \<and>
   map_option (\<lambda>r. contents (snd r) (Created 0)) (split unset_targets_splitter None None None example_catalog) =
     Some [''track1''] \<and>
   map_option (\<lambda>r. contents (snd r) (Created 1)) (split unset_targets_splitter None None None example_catalog) =
     Some [''track2'']"
  by (simp add: example_split_unset make_target_playlist_def client_current_user_def
      client_user_playlist_create_def write_one log_call_def example_catalog_fields)

lemma write_pools_too_few_targets:
  "length ps < length track_pools \<Longrightarrow>
   fst (write_pools track_pools (Target_list ps) c) = Inl (ValueError zip_shorter)"
proof (induction track_pools arbitrary: ps c)
  case Nil
  then show ?case by simp
next
  case (Cons tracks track_pools)
  then show ?case by (cases ps) simp_all
qed

lemma write_pools_too_few_created:
  "n < length track_pools \<Longrightarrow>
   fst (write_pools track_pools (Target_generator n) c) = Inl (ValueError zip_shorter)"
proof (induction track_pools arbitrary: n c)
  case Nil
  then show ?case by simp
next
  case (Cons tracks track_pools)
  then show ?case by (cases n) (simp_all split: prod.splits)
qed

lemma write_pools_frame:
  "p \<notin> set ps \<Longrightarrow> contents (snd (write_pools track_pools (Target_list ps) c)) p = contents c p"
proof (induction track_pools arbitrary: ps c)
  case Nil
  then show ?case by (cases ps) simp_all
next
  case (Cons tracks track_pools)
  then show ?case
    by (cases ps) (simp_all add: contents_write_playlist contents_reset_playlist)
qed

lemma write_pools_all_targets:
  "length ps = length track_pools \<Longrightarrow> distinct ps \<Longrightarrow>
   fst (write_pools track_pools (Target_list ps) c) = Inr () \<and>
   (\<forall>i < length ps. contents (snd (write_pools track_pools (Target_list ps) c)) (ps ! i) = track_pools ! i)"
proof (induction track_pools arbitrary: ps c)
  case Nil
  then show ?case by simp
next
  case (Cons tracks track_pools)
  then obtain p ps' where ps: "ps = p # ps'" by (cases ps) auto
  with Cons.prems have len: "length ps' = length track_pools" and d: "distinct ps'" and np: "p \<notin> set ps'"
    by simp_all
  let ?c = "write_playlist (reset_playlist c p) p tracks"
  note ih = Cons.IH [OF len d, of ?c]
  have head: "contents (snd (write_pools track_pools (Target_list ps') ?c)) p = tracks"
    using write_pools_frame [OF np, of track_pools ?c] by (simp add: contents_write_playlist)
  show ?case
  proof (intro conjI allI impI)
    show "fst (write_pools (tracks # track_pools) (Target_list ps) c) = Inr ()"
      using ih by (simp add: ps)
  next
    fix i assume "i < length ps"
    then show "contents (snd (write_pools (tracks # track_pools) (Target_list ps) c)) (ps ! i) =
        (tracks # track_pools) ! i"
      using ih head by (cases i) (simp_all add: ps)
  qed
qed

lemma length_classify: "length (fst (classify cl pools tracks c)) = length pools + 1"
  by (cases cl) (simp_all add: classify_def split_by_artist_buckets split_by_label_buckets)

lemma do_split_too_few_targets:
  assumes "dispatch st = Inr cl" and "get_all_playlist_items c origin = Some (results, c1)"
    and "length ps = length pools"
  shows "map_option fst (do_split origin st pools (Target_list ps) c) = Some (Inl (ValueError zip_shorter))"
proof -
  obtain track_pools c2 where cl: "classify cl pools (map item_track results) c1 = (track_pools, c2)"
    by (cases "classify cl pools (map item_track results) c1")
  with length_classify [of cl pools "map item_track results" c1]
  have "length ps < length track_pools" using assms(3) by simp
  then have "fst (write_pools track_pools (Target_list ps) c2) = Inl (ValueError zip_shorter)"
    by (rule write_pools_too_few_targets)
  then show ?thesis by (simp add: do_split_def assms(1,2) cl)
qed

lemma do_split_too_few_created:
  assumes "dispatch st = Inr cl" and "get_all_playlist_items c origin = Some (results, c1)"
  shows "map_option fst (do_split origin st pools (Target_generator (length pools)) c) =
           Some (Inl (ValueError zip_shorter))"
proof -
  obtain track_pools c2 where cl: "classify cl pools (map item_track results) c1 = (track_pools, c2)"
    by (cases "classify cl pools (map item_track results) c1")
  with length_classify [of cl pools "map item_track results" c1]
  have "length pools < length track_pools" by simp
  then have "fst (write_pools track_pools (Target_generator (length pools)) c2) = Inl (ValueError zip_shorter)"
    by (rule write_pools_too_few_created)
  then show ?thesis by (simp add: do_split_def assms cl)
qed

lemma do_split_all_targets:
  assumes "dispatch st = Inr cl" and "get_all_playlist_items c origin = Some (results, c1)"
    and "length ps = length pools + 1" and "distinct ps"
  shows "\<exists>c'. do_split origin st pools (Target_list ps) c = Some (Inr (), c') \<and>
           (\<forall>i < length ps. contents c' (ps ! i) = fst (classify cl pools (map item_track results) c1) ! i)"
proof -
  obtain track_pools c2 where cl: "classify cl pools (map item_track results) c1 = (track_pools, c2)"
    by (cases "classify cl pools (map item_track results) c1")
  with length_classify [of cl pools "map item_track results" c1]
  have "length ps = length track_pools" using assms(3) by simp
  from write_pools_all_targets [OF this assms(4), of c2]
  show ?thesis by (cases "write_pools track_pools (Target_list ps) c2") (simp add: do_split_def assms(1,2) cl)
qed

text \<open>
  C3. A run with as many targets as pools, the number that the documentation of \<^verbatim>\<open>split\<close>
  asks for and that its check accepts: two pools, two targets, the three tracks of the
  example. The first two buckets are written to the two targets, then \<^verbatim>\<open>zip\<close> raises
  \<^verbatim>\<open>ValueError\<close>, because there are three buckets; the run does not complete.
\<close>

theorem split_same_length_targets_raises:
  "validate same_length_splitter = Inr (''origin'', Str ''artist'', example_pools) \<and>
   map_option fst (split same_length_splitter None None None example_catalog) =
     Some (Inl (ValueError zip_shorter)) \<and>
   map_option (\<lambda>r. contents (snd r) (PlaylistId ''first'')) (split same_length_splitter None None None example_catalog) =
     Some [''track1''] \<and>
   map_option (\<lambda>r. contents (snd r) (PlaylistId ''second'')) (split same_length_splitter None None None example_catalog) =
     Some [''track2'']"
proof -
  have v: "validate same_length_splitter = Inr (''origin'', Str ''artist'', example_pools)"
    by (simp add: validate_def same_length_splitter_def example_pools_def)
  have "split same_length_splitter None None None example_catalog =
      do_split ''origin'' (Str ''artist'') example_pools
        (Target_list [PlaylistId ''first'', PlaylistId ''second'']) example_catalog"
    by (simp add: split_def merge_args_def v effective_targets_def) (simp add: same_length_splitter_def)
  then have "split same_length_splitter None None None example_catalog =
      Some (write_pools [[''track1''], [''track2''], [''track3'']]
              (Target_list [PlaylistId ''first'', PlaylistId ''second''])
              (example_catalog\<lparr>calls := [Call_playlist ''origin'']\<rparr>))"
    by (simp only: example_do_split example_split_by_artist)
  then show ?thesis
    by (simp add: v write_one example_catalog_fields)
qed




text \<open>
  C10. The classifier is looked up by name. The lookup gives a classifier exactly for the
  strings \<^verbatim>\<open>'artist'\<close> and \<^verbatim>\<open>'label'\<close>. For every other split type that passes the checks
  of \<^verbatim>\<open>split\<close>, a member of \<^verbatim>\<open>SplitTypes\<close> included, \<^verbatim>\<open>split\<close> fetches the origin playlist and
  then fails in the lookup, with \<^verbatim>\<open>TypeError\<close> for a member of the enumeration and with
  \<^verbatim>\<open>AttributeError\<close> for a string; nothing is classified and nothing is written.
\<close>

theorem split_dispatch_by_name:
  "((\<exists>cl. dispatch st = Inr cl) = (st = Str ''artist'' \<or> st = Str ''label'')) \<and>
   dispatch (Str ''artist'') = Inr Split_by_artist \<and>
   dispatch (Str ''label'') = Inr Split_by_label \<and>
   (validate (merge_args self by_arg playlist_arg into_arg) = Inr (origin, st, pools) \<and>
    st \<noteq> Str ''artist'' \<and> st \<noteq> Str ''label'' \<and>
    get_all_playlist_items c origin = Some (results, c1) \<longrightarrow>
      split self by_arg playlist_arg into_arg c =
        Some (Inl (case st of
                     Member m \<Rightarrow> TypeError
                   | Str s \<Rightarrow> AttributeError (''_PlaylistSplitter__split_by_'' @ s)), c1))"
proof (intro conjI impI)
  show "(\<exists>cl. dispatch st = Inr cl) = (st = Str ''artist'' \<or> st = Str ''label'')"
    by (cases st) (auto simp: dispatch_def)
  show "dispatch (Str ''artist'') = Inr Split_by_artist" by (simp add: dispatch_def)
  show "dispatch (Str ''label'') = Inr Split_by_label" by (simp add: dispatch_def)
next
  assume a: "validate (merge_args self by_arg playlist_arg into_arg) = Inr (origin, st, pools) \<and>
    st \<noteq> Str ''artist'' \<and> st \<noteq> Str ''label'' \<and>
    get_all_playlist_items c origin = Some (results, c1)"
  then have "dispatch st = Inl (case st of
                     Member m \<Rightarrow> TypeError
                   | Str s \<Rightarrow> AttributeError (''_PlaylistSplitter__split_by_'' @ s))"
    by (cases st) (auto simp: dispatch_def)
  with a show "split self by_arg playlist_arg into_arg c =
        Some (Inl (case st of
                     Member m \<Rightarrow> TypeError
                   | Str s \<Rightarrow> AttributeError (''_PlaylistSplitter__split_by_'' @ s)), c1)"
    by (simp add: split_def do_split_def)
qed

theorem split_dispatch_by_name_witness:
  "split unset_splitter (Some (Member ARTIST, example_pools)) (Some ''origin'') None example_catalog =
     Some (Inl TypeError, example_catalog\<lparr>calls := [Call_playlist ''origin'']\<rparr>) \<and>
   split unset_splitter (Some (Str ''Artist'', example_pools)) (Some ''origin'') None example_catalog =
     Some (Inl (AttributeError ''_PlaylistSplitter__split_by_Artist''),
           example_catalog\<lparr>calls := [Call_playlist ''origin'']\<rparr>)"
proof -
  have v: "validate (merge_args unset_splitter (Some (st, example_pools)) (Some ''origin'') None) =
      Inr (''origin'', st, example_pools)" for st
    by (simp add: validate_def merge_args_def unset_splitter_def playlist_def split_by_def)
  from split_dispatch_by_name [of "Member ARTIST" unset_splitter "Some (Member ARTIST, example_pools)"
      "Some ''origin''" None "''origin''" example_pools example_catalog
      "[Item track1, Item track2, Item track3]" "example_catalog\<lparr>calls := [Call_playlist ''origin'']\<rparr>"]
    v [of "Member ARTIST"] example_get_all
  have "split unset_splitter (Some (Member ARTIST, example_pools)) (Some ''origin'') None example_catalog =
     Some (Inl TypeError, example_catalog\<lparr>calls := [Call_playlist ''origin'']\<rparr>)"
    by simp
  moreover
  from split_dispatch_by_name [of "Str ''Artist''" unset_splitter "Some (Str ''Artist'', example_pools)"
      "Some ''origin''" None "''origin''" example_pools example_catalog
      "[Item track1, Item track2, Item track3]" "example_catalog\<lparr>calls := [Call_playlist ''origin'']\<rparr>"]
    v [of "Str ''Artist''"] example_get_all
  have "split unset_splitter (Some (Str ''Artist'', example_pools)) (Some ''origin'') None example_catalog =
     Some (Inl (AttributeError ''_PlaylistSplitter__split_by_Artist''),
           example_catalog\<lparr>calls := [Call_playlist ''origin'']\<rparr>)"
    by simp
  ultimately show ?thesis by blast
qed

text \<open>
  X1. With as many targets as pools, every run of \<^verbatim>\<open>split\<close> that passes the checks,
  fetches the origin playlist and finds its classifier ends in the \<^verbatim>\<open>ValueError\<close> that \<^verbatim>\<open>zip\<close>
  raises when its second argument is the shorter one.
\<close>

theorem split_targets_same_length_raises:
  assumes "validate self = Inr (origin, st, pools)"
    and "target_playlists self = Some (Target_list ps)" and "length ps = length pools"
    and "dispatch st = Inr cl" and "get_all_playlist_items c origin = Some (results, c1)"
  shows "map_option fst (split self None None None c) = Some (Inl (ValueError zip_shorter))"
proof (cases ps)
  case Nil
  with assms(3) have "pools = []" by simp
  with Nil assms(1,2) do_split_too_few_created [OF assms(4,5), of pools]
  show ?thesis by (simp add: split_def merge_args_def effective_targets_def)
next
  case (Cons p ps')
  with assms(1,2) do_split_too_few_targets [OF assms(4,5,3)]
  show ?thesis by (simp add: split_def merge_args_def effective_targets_def)
qed

theorem split_targets_same_length_raises_witness:
  "map_option fst (split same_length_splitter None None None example_catalog) =
     Some (Inl (ValueError zip_shorter))"
proof -
  have v: "validate same_length_splitter = Inr (''origin'', Str ''artist'', example_pools)"
    by (simp add: validate_def same_length_splitter_def example_pools_def)
  have t: "target_playlists same_length_splitter =
      Some (Target_list [PlaylistId ''first'', PlaylistId ''second''])"
    by (simp add: same_length_splitter_def)
  have l: "length [PlaylistId ''first'', PlaylistId ''second''] = length example_pools"
    by (simp add: example_pools_def)
  have dp: "dispatch (Str ''artist'') = Inr Split_by_artist" by (simp add: dispatch_def)
  from split_targets_same_length_raises [OF v t l dp example_get_all] show ?thesis .
qed

text \<open>
  X2. With the targets unset, every run of \<^verbatim>\<open>split\<close> that passes the checks, fetches the
  origin playlist and finds its classifier ends in the same \<^verbatim>\<open>ValueError\<close>: the generator
  creates one playlist per pool, one fewer than there are buckets.
\<close>

theorem split_targets_unset_raises:
  assumes "validate self = Inr (origin, st, pools)" and "target_playlists self = None"
    and "dispatch st = Inr cl" and "get_all_playlist_items c origin = Some (results, c1)"
  shows "map_option fst (split self None None None c) = Some (Inl (ValueError zip_shorter))"
  using assms(1,2) do_split_too_few_created [OF assms(3,4), of pools]
  by (simp add: split_def merge_args_def effective_targets_def)

theorem split_targets_unset_raises_witness:
  "map_option fst (split unset_targets_splitter None None None example_catalog) =
     Some (Inl (ValueError zip_shorter))"
proof -
  have v: "validate unset_targets_splitter = Inr (''origin'', Str ''artist'', example_pools)"
    by (simp add: validate_def unset_targets_splitter_def)
  have t: "target_playlists unset_targets_splitter = None"
    by (simp add: unset_targets_splitter_def)
  have dp: "dispatch (Str ''artist'') = Inr Split_by_artist" by (simp add: dispatch_def)
  from split_targets_unset_raises [OF v t dp example_get_all] show ?thesis .
qed

lemma example_classify:
  "classify Split_by_artist example_pools (map item_track [Item track1, Item track2, Item track3])
     (example_catalog\<lparr>calls := [Call_playlist ''origin'']\<rparr>) =
     ([[''track1''], [''track2''], [''track3'']], example_catalog\<lparr>calls := [Call_playlist ''origin'']\<rparr>)"
  by (simp add: classify_def example_split_by_artist)

text \<open>
  X3. With one target more than pools, all different, a run of \<^verbatim>\<open>split\<close> that passes the
  checks, fetches the origin playlist and finds its classifier completes, and afterwards
  target \<open>i\<close> holds bucket \<open>i\<close> of the classification.
\<close>

theorem split_targets_one_more_succeeds:
  assumes "validate self = Inr (origin, st, pools)"
    and "target_playlists self = Some (Target_list ps)" and "length ps = length pools + 1"
    and "distinct ps"
    and "dispatch st = Inr cl" and "get_all_playlist_items c origin = Some (results, c1)"
  shows "\<exists>c'. split self None None None c = Some (Inr (), c') \<and>
           (\<forall>i < length ps. contents c' (ps ! i) = fst (classify cl pools (map item_track results) c1) ! i)"
proof -
  from assms(3) obtain p ps' where "ps = p # ps'" by (cases ps) auto
  with assms(1,2) do_split_all_targets [OF assms(5,6,3,4)]
  show ?thesis by (simp add: split_def merge_args_def effective_targets_def)
qed

theorem split_targets_one_more_succeeds_witness:
  "map_option fst (split one_more_splitter None None None example_catalog) = Some (Inr ()) \<and>
   map_option (\<lambda>r. contents (snd r) (PlaylistId ''first'')) (split one_more_splitter None None None example_catalog) =
     Some [''track1''] \<and>
   map_option (\<lambda>r. contents (snd r) (PlaylistId ''second'')) (split one_more_splitter None None None example_catalog) =
     Some [''track2''] \<and>
   map_option (\<lambda>r. contents (snd r) (PlaylistId ''rest'')) (split one_more_splitter None None None example_catalog) =
     Some [''track3'']"
proof -
  let ?ps = "[PlaylistId ''first'', PlaylistId ''second'', PlaylistId ''rest'']"
  have v: "validate one_more_splitter = Inr (''origin'', Str ''artist'', example_pools)"
    by (simp add: validate_def one_more_splitter_def example_pools_def)
  have t: "target_playlists one_more_splitter = Some (Target_list ?ps)"
    by (simp add: one_more_splitter_def)
  have l: "length ?ps = length example_pools + 1" by (simp add: example_pools_def)
  have d: "distinct ?ps" by simp
  have dp: "dispatch (Str ''artist'') = Inr Split_by_artist" by (simp add: dispatch_def)
  from split_targets_one_more_succeeds [OF v t l d dp example_get_all]
  obtain c' where s: "split one_more_splitter None None None example_catalog = Some (Inr (), c')"
    and all: "\<forall>i < length ?ps. contents c' (?ps ! i) = [[''track1''], [''track2''], [''track3'']] ! i"
    unfolding example_classify fst_conv by blast
  have "contents c' (PlaylistId ''first'') = [''track1'']"
    using all [rule_format, of 0] by simp
  moreover have "contents c' (PlaylistId ''second'') = [''track2'']"
    using all [rule_format, of 1] by simp
  moreover have "contents c' (PlaylistId ''rest'') = [''track3'']"
    using all [rule_format, of 2] by simp
  ultimately show ?thesis using s by simp
qed

end
